theory Spec2Isabelle
  imports Complex_Main
begin

section \<open>Numbers and arrays of the host language\<close>

text \<open>
  The program is TypeScript. Its numbers are IEEE doubles; here a finite number is
  idealised as a \<open>real\<close> (no rounding, no overflow), and sample counts, indices and
  frame sizes, which the program only ever produces as whole numbers, are \<open>int\<close>.
  A cell of a \<open>Float32Array\<close> holds either a finite sample or \<open>NaN\<close>, the value such an
  array stores when it is handed \<open>undefined\<close>.
\<close>

datatype f32 = NaN | Fin real

text \<open>
  Reading \<open>xs[i]\<close> from an array or a typed array never fails: outside \<open>0 .. length - 1\<close>
  the result is \<open>undefined\<close>, modelled as \<open>None\<close>.
\<close>

definition js_index :: "'a list \<Rightarrow> int \<Rightarrow> 'a option" where
  "js_index xs i = (if 0 \<le> i \<and> i < int (length xs) then Some (xs ! nat i) else None)"

text \<open>Writing \<open>xs[i] = v\<close> into a typed array outside its range is silently dropped.\<close>

definition ta_store :: "'a list \<Rightarrow> int \<Rightarrow> 'a \<Rightarrow> 'a list" where
  "ta_store xs i v = (if 0 \<le> i \<and> i < int (length xs) then xs[nat i := v] else xs)"

text \<open>The conversion a \<open>Float32Array\<close> applies to the value it is asked to store.\<close>

definition to_f32 :: "f32 option \<Rightarrow> f32" where
  "to_f32 v = (case v of None \<Rightarrow> NaN | Some x \<Rightarrow> x)"

text \<open>The remainder operator \<open>%\<close> on whole numbers: it truncates, so the sign is the dividend's.\<close>

definition js_rem :: "int \<Rightarrow> int \<Rightarrow> int" where
  "js_rem a b = sgn a * (\<bar>a\<bar> mod \<bar>b\<bar>)"

text \<open>\<open>Math.round\<close>: the nearest whole number, a tie going up.\<close>

definition math_round :: "real \<Rightarrow> int" where
  "math_round x = \<lfloor>x + 1 / 2\<rfloor>"

section \<open>FloatArrayWrapper: the chunked sample buffer\<close>

record FloatArrayWrapper =
  dataList :: "f32 list list"
  currentElementCount :: int

definition innerArraySize :: int where
  "innerArraySize = 4096"

text \<open>The constructor: no chunk, no element.\<close>

definition new_FloatArrayWrapper :: FloatArrayWrapper where
  "new_FloatArrayWrapper = \<lparr>dataList = [], currentElementCount = 0\<rparr>"

text \<open>\<open>new Float32Array(innerArraySize)\<close>: a chunk of zeros.\<close>

definition new_chunk :: "f32 list" where
  "new_chunk = replicate (nat innerArraySize) (Fin 0)"

function createAdditionalInnerArrays_loop ::
  "int \<Rightarrow> int \<Rightarrow> FloatArrayWrapper \<Rightarrow> FloatArrayWrapper" where
  "createAdditionalInnerArrays_loop i arraysCount b =
     (if i < arraysCount
      then createAdditionalInnerArrays_loop (i + 1) arraysCount
             (b\<lparr>dataList := dataList b @ [new_chunk]\<rparr>)
      else b)"
  by pat_completeness auto
termination
  by (relation "measure (\<lambda>(i, arraysCount, b). nat (arraysCount - i))") auto

definition createAdditionalInnerArrays :: "int \<Rightarrow> FloatArrayWrapper \<Rightarrow> FloatArrayWrapper" where
  "createAdditionalInnerArrays arraysCount b = createAdditionalInnerArrays_loop 0 arraysCount b"

text \<open>
  One round of the copy loop of \<open>push\<close>: the sample goes to the chunk the element count
  points at, when that chunk exists, and the count moves on in either case.
\<close>

definition push_step :: "f32 list \<Rightarrow> int \<Rightarrow> FloatArrayWrapper \<Rightarrow> FloatArrayWrapper" where
  "push_step floatArray currentCopiedElementIndex b =
     (let dataArrayIndex = \<lfloor>real_of_int (currentElementCount b) / real_of_int innerArraySize\<rfloor>;
          innerArrayIndex = js_rem (currentElementCount b) innerArraySize;
          dl = (case js_index (dataList b) dataArrayIndex of
                  None \<Rightarrow> dataList b
                | Some chunk \<Rightarrow>
                    (dataList b)[nat dataArrayIndex :=
                       ta_store chunk innerArrayIndex
                         (to_f32 (js_index floatArray currentCopiedElementIndex))])
      in b\<lparr>dataList := dl, currentElementCount := currentElementCount b + 1\<rparr>)"

function push_loop :: "f32 list \<Rightarrow> int \<Rightarrow> int \<Rightarrow> FloatArrayWrapper \<Rightarrow> FloatArrayWrapper" where
  "push_loop floatArray arrayRealSize currentCopiedElementIndex b =
     (if currentCopiedElementIndex < arrayRealSize
      then push_loop floatArray arrayRealSize (currentCopiedElementIndex + 1)
             (push_step floatArray currentCopiedElementIndex b)
      else b)"
  by pat_completeness auto
termination
  by (relation "measure (\<lambda>(floatArray, arrayRealSize, i, b). nat (arrayRealSize - i))") auto

definition availableElementsInCurrentArray :: "FloatArrayWrapper \<Rightarrow> int" where
  "availableElementsInCurrentArray b =
     (let available = innerArraySize - js_rem (currentElementCount b) innerArraySize
      in if js_rem (currentElementCount b) innerArraySize = 0 then 0 else available)"

definition arraysToAddCount :: "int \<Rightarrow> FloatArrayWrapper \<Rightarrow> int" where
  "arraysToAddCount arrayRealSize b =
     \<lceil>real_of_int (arrayRealSize - availableElementsInCurrentArray b) / real_of_int innerArraySize\<rceil>"

definition push :: "f32 list \<Rightarrow> int \<Rightarrow> FloatArrayWrapper \<Rightarrow> FloatArrayWrapper" where
  "push floatArray arrayRealSize b =
     push_loop floatArray arrayRealSize 0
       (createAdditionalInnerArrays (arraysToAddCount arrayRealSize b) b)"

text \<open>\<open>shift\<close> hands out the first chunk, or \<open>undefined\<close> when there is none.\<close>

definition shift :: "FloatArrayWrapper \<Rightarrow> f32 list option \<times> FloatArrayWrapper" where
  "shift b = (case dataList b of
                [] \<Rightarrow> (None, b)
              | chunk # rest \<Rightarrow> (Some chunk, b\<lparr>dataList := rest\<rparr>))"

text \<open>
  \<open>getElement\<close> returns a number, or \<open>undefined\<close> (\<open>None\<close>) should the chunk exist and
  the position in it fall outside the chunk.
\<close>

definition getElement :: "FloatArrayWrapper \<Rightarrow> int \<Rightarrow> f32 option" where
  "getElement b idx =
     (let arrayIndex = \<lfloor>real_of_int idx / real_of_int innerArraySize\<rfloor>;
          elementInArrayIdx = js_rem idx innerArraySize
      in case js_index (dataList b) arrayIndex of
           Some chunk \<Rightarrow> js_index chunk elementInArrayIdx
         | None \<Rightarrow> Some (Fin 0))"

definition getSize :: "FloatArrayWrapper \<Rightarrow> int" where
  "getSize b = currentElementCount b"

definition clear :: "FloatArrayWrapper \<Rightarrow> FloatArrayWrapper" where
  "clear b = b\<lparr>currentElementCount := 0, dataList := []\<rparr>"

text \<open>A run of \<open>push\<close> calls, each with its array and its count, first call first.\<close>

definition pushes :: "(f32 list \<times> int) list \<Rightarrow> FloatArrayWrapper \<Rightarrow> FloatArrayWrapper" where
  "pushes calls b = foldl (\<lambda>b (floatArray, arrayRealSize). push floatArray arrayRealSize b) b calls"

text \<open>
  What a run of calls appends, in the words of the specification: the first
  \<open>arrayRealSize\<close> samples of each array, one call after the other, and their number.
\<close>

definition total_count :: "(f32 list \<times> int) list \<Rightarrow> int" where
  "total_count calls = sum_list (map snd calls)"

definition pushed_samples :: "(f32 list \<times> int) list \<Rightarrow> f32 list" where
  "pushed_samples calls =
     concat (map (\<lambda>(floatArray, arrayRealSize). take (nat arrayRealSize) floatArray) calls)"

text \<open>A call is in order when its count is not negative and not beyond the array it comes with.\<close>

definition counts_ok :: "(f32 list \<times> int) list \<Rightarrow> bool" where
  "counts_ok calls =
     list_all (\<lambda>(floatArray, arrayRealSize).
        0 \<le> arrayRealSize \<and> arrayRealSize \<le> int (length floatArray)) calls"

text \<open>The weaker condition that no count is negative.\<close>

definition counts_nonneg :: "(f32 list \<times> int) list \<Rightarrow> bool" where
  "counts_nonneg calls = list_all (\<lambda>(floatArray, arrayRealSize). 0 \<le> arrayRealSize) calls"

subsection \<open>The shape of a buffer that only \<open>push\<close> has touched\<close>

definition chunks_ok :: "FloatArrayWrapper \<Rightarrow> bool" where
  "chunks_ok b = (\<forall>c \<in> set (dataList b). int (length c) = innerArraySize)"

definition capacity :: "FloatArrayWrapper \<Rightarrow> int" where
  "capacity b = int (length (dataList b)) * innerArraySize"

definition wf_buffer :: "FloatArrayWrapper \<Rightarrow> bool" where
  "wf_buffer b \<longleftrightarrow>
     chunks_ok b \<and> 0 \<le> currentElementCount b \<and>
     int (length (dataList b)) = - ((- currentElementCount b) div innerArraySize) \<and>
     (\<forall>p. currentElementCount b \<le> p \<longrightarrow> getElement b p = Some (Fin 0))"

section \<open>AudioController: the playback engine\<close>

text \<open>
  The fields \<open>play\<close> reads or writes. \<open>audioData\<close> and \<open>resultFrame\<close> are \<open>null\<close>
  (\<open>None\<close>) until \<open>setTrack\<close> has run. \<open>enqueued\<close> stands for the audio sink: the frames
  handed to \<open>audioOutput.enqueueAudioFrame\<close>, each with the sample count of its shape,
  oldest first.
\<close>

record AudioController =
  rate :: real
  volume :: real
  audioData :: "FloatArrayWrapper option"
  resultFrame :: "f32 list option"
  phase :: real
  trackOnDeck :: bool
  enqueued :: "(f32 list \<times> int) list"

text \<open>
  The product \<open>getElement(...) * volume\<close>: \<open>undefined\<close> and \<open>NaN\<close> both give \<open>NaN\<close>.
\<close>

definition times_volume :: "f32 option \<Rightarrow> real \<Rightarrow> f32" where
  "times_volume v vol =
     (case v of None \<Rightarrow> NaN | Some NaN \<Rightarrow> NaN | Some (Fin x) \<Rightarrow> Fin (x * vol))"

text \<open>The synthesis loop of \<open>play\<close>, on the two things it changes: the phase and the frame.\<close>

function play_loop ::
  "FloatArrayWrapper \<Rightarrow> real \<Rightarrow> real \<Rightarrow> int \<Rightarrow> int \<Rightarrow> real \<times> f32 list \<Rightarrow> real \<times> f32 list" where
  "play_loop ad r vol frameSize i (ph, frame) =
     (if i < frameSize
      then (let ph' = ph + r;
                audioSourceUpdateData = times_volume (getElement ad (math_round ph')) vol
            in play_loop ad r vol frameSize (i + 1) (ph', ta_store frame i audioSourceUpdateData))
      else (ph, frame))"
  by pat_completeness auto
termination
  by (relation "measure (\<lambda>(ad, r, vol, frameSize, i, st). nat (frameSize - i))") auto

text \<open>
  \<open>play\<close>, with the preferred frame size of the audio output as its argument. The
  three tests of its guard are taken in the order of the source; past the guard the loop
  runs, the phase is wrapped once, and the frame is handed to the sink.
\<close>

definition play :: "int \<Rightarrow> AudioController \<Rightarrow> AudioController" where
  "play frameSize s =
     (case resultFrame s of
        None \<Rightarrow> s
      | Some frame \<Rightarrow>
          if \<not> trackOnDeck s then s
          else (case audioData s of
                  None \<Rightarrow> s
                | Some ad \<Rightarrow>
                    (let (ph, frame') = play_loop ad (rate s) (volume s) frameSize 0 (phase s, frame);
                         ph' = (if real_of_int (getSize ad) \<le> ph \<or> rate s = 0 then 0 else ph)
                     in s\<lparr>phase := ph', resultFrame := Some frame',
                          enqueued := enqueued s @ [(frame', frameSize)]\<rparr>)))"

section \<open>AccelerationToRate: the rate controller\<close>

text \<open>
  The two getters the controller reads from the motion source: the lengths of its
  smoothed velocity and of its acceleration.
\<close>

record AccelerationCalculator =
  velocityMagnitude :: real
  accelerationMagnitude :: real

record AccelerationToRate =
  baseRate :: real
  useVelocity :: bool
  sensitivity :: real
  minRate :: real
  maxRate :: real
  smoothing :: real
  motionThreshold :: real
  enableDebugLogging :: bool
  currentRate :: real
  targetRate :: real

definition calculateTargetRate :: "AccelerationToRate \<Rightarrow> real \<Rightarrow> real" where
  "calculateTargetRate c magnitude =
     (let rateMultiplier = 1 + magnitude * sensitivity c
      in baseRate c * rateMultiplier)"

definition applySmoothingToRate :: "AccelerationToRate \<Rightarrow> real \<Rightarrow> real \<Rightarrow> real" where
  "applySmoothingToRate c current target =
     (let alpha = smoothing c;
          oneMinusAlpha = 1 - alpha
      in oneMinusAlpha * target + alpha * current)"

definition motionMagnitude :: "AccelerationCalculator \<Rightarrow> AccelerationToRate \<Rightarrow> real" where
  "motionMagnitude calc c =
     (if useVelocity c then velocityMagnitude calc else accelerationMagnitude calc)"

text \<open>
  One tick of \<open>updateRate\<close>, on the controller and the engine it writes to. The debug
  log it may print changes neither and is left out.
\<close>

definition updateRate ::
  "AccelerationCalculator \<Rightarrow> AccelerationToRate \<times> AudioController
     \<Rightarrow> AccelerationToRate \<times> AudioController" where
  "updateRate calc = (\<lambda>(c, a).
     let m = motionMagnitude calc c;
         c1 = (if m < motionThreshold c then c\<lparr>targetRate := baseRate c\<rparr>
               else c\<lparr>targetRate := calculateTargetRate c m\<rparr>);
         c2 = c1\<lparr>currentRate := applySmoothingToRate c1 (currentRate c1) (targetRate c1)\<rparr>;
         c3 = c2\<lparr>currentRate := max (minRate c2) (min (maxRate c2) (currentRate c2))\<rparr>
     in (c3, a\<lparr>rate := currentRate c3\<rparr>))"

section \<open>States used as examples\<close>

text \<open>
  A deck of three samples in one chunk, an engine about to play it at double speed and
  half volume into a frame of three cells, and a controller with the default settings of
  the component except that smoothing is switched off.
\<close>

definition deck3 :: FloatArrayWrapper where
  "deck3 = \<lparr>dataList = [[Fin 10, Fin 20, Fin 30] @ replicate 4093 (Fin 0)], currentElementCount = 3\<rparr>"

definition engine0 :: AudioController where
  "engine0 = \<lparr>rate = 2, volume = 1 / 2, audioData = Some deck3,
     resultFrame = Some [Fin 0, Fin 0, Fin 9], phase = 0, trackOnDeck = True, enqueued = []\<rparr>"

definition controller0 :: AccelerationToRate where
  "controller0 = \<lparr>baseRate = 1, useVelocity = True, sensitivity = 2, minRate = 3 / 10,
     maxRate = 3, smoothing = 0, motionThreshold = 1 / 20, enableDebugLogging = False,
     currentRate = 1, targetRate = 1\<rparr>"

definition motion :: "real \<Rightarrow> AccelerationCalculator" where
  "motion v = \<lparr>velocityMagnitude = v, accelerationMagnitude = 0\<rparr>"

declare createAdditionalInnerArrays_loop.simps [simp del]
declare push_loop.simps [simp del]
declare play_loop.simps [simp del]

section \<open>Arithmetic of chunk indices\<close>

lemma ceil_div_iff:
  fixes a k s :: int
  assumes "0 < s"
  shows "- ((- a) div s) = k \<longleftrightarrow> (k - 1) * s < a \<and> a \<le> k * s"
proof
  assume "- ((- a) div s) = k"
  then have k: "(- a) div s = - k" by simp
  have "(- a) = s * ((- a) div s) + (- a) mod s" by simp
  moreover have "0 \<le> (- a) mod s" "(- a) mod s < s" using assms by simp_all
  ultimately have "s * (- k) \<le> - a" "- a < s * (- k) + s" unfolding k by linarith+
  then show "(k - 1) * s < a \<and> a \<le> k * s" by (simp add: algebra_simps)
next
  assume b: "(k - 1) * s < a \<and> a \<le> k * s"
  have "(- a) div s = - k"
  proof (rule int_div_pos_eq)
    show "- a = s * (- k) + (k * s - a)" by (simp add: algebra_simps)
    show "0 \<le> k * s - a" using b by simp
    show "k * s - a < s" using b by (simp add: algebra_simps)
  qed
  then show "- ((- a) div s) = k" by simp
qed

lemma chunk_growth_arith:
  fixes c n :: int
  assumes "0 \<le> c" and "0 \<le> n"
  shows "- ((- c) div 4096)
           + int (nat (- ((- (n - (if c mod 4096 = 0 then 0 else 4096 - c mod 4096))) div 4096)))
         = - ((- (c + n)) div 4096)"
proof -
  define q r where "q = c div 4096" and "r = c mod 4096"
  have c: "c = 4096 * q + r" and r: "0 \<le> r" "r < 4096" by (simp_all add: q_def r_def)
  define C K where "C = - ((- c) div 4096)"
    and "K = - ((- (n - (if r = 0 then 0 else 4096 - r))) div 4096)"
  have Kb: "(K - 1) * 4096 < n - (if r = 0 then 0 else 4096 - r)
          \<and> n - (if r = 0 then 0 else 4096 - r) \<le> K * 4096"
    using ceil_div_iff [of 4096 "n - (if r = 0 then 0 else 4096 - r)" K] by (simp add: K_def)
  have K0: "0 \<le> K"
  proof (rule ccontr)
    assume "\<not> 0 \<le> K"
    then have "K \<le> - 1" by simp
    then show False using Kb assms(2) r by (cases "r = 0") auto
  qed
  have Ceq: "C = (if r = 0 then q else q + 1)"
    unfolding C_def using ceil_div_iff [of 4096 c "if r = 0 then q else q + 1"] c r by auto
  have "(C + K - 1) * 4096 < c + n \<and> c + n \<le> (C + K) * 4096"
    using Ceq Kb c r by (cases "r = 0") auto
  then have "- ((- (c + n)) div 4096) = C + K"
    using ceil_div_iff [of 4096 "c + n" "C + K"] by simp
  then show ?thesis using K0 unfolding C_def [symmetric] r_def [symmetric] K_def [symmetric] by simp
qed

lemma chunk_growth_arith_neg:
  fixes c n :: int
  assumes "0 \<le> c" and "n < 0"
  shows "nat (- ((- (n - (if c mod 4096 = 0 then 0 else 4096 - c mod 4096))) div 4096)) = 0"
proof -
  define r where "r = c mod 4096"
  have r: "0 \<le> r" "r < 4096" by (simp_all add: r_def)
  define K where "K = - ((- (n - (if r = 0 then 0 else 4096 - r))) div 4096)"
  have Kb: "(K - 1) * 4096 < n - (if r = 0 then 0 else 4096 - r)
          \<and> n - (if r = 0 then 0 else 4096 - r) \<le> K * 4096"
    using ceil_div_iff [of 4096 "n - (if r = 0 then 0 else 4096 - r)" K] by (simp add: K_def)
  have "K \<le> 0"
  proof (rule ccontr)
    assume "\<not> K \<le> 0"
    then have "1 \<le> K" by simp
    then show False using Kb assms(2) r by (cases "r = 0") auto
  qed
  then show ?thesis unfolding r_def [symmetric] K_def [symmetric] by simp
qed

lemma ceil_covers:
  fixes c :: int
  shows "c \<le> (- ((- c) div 4096)) * 4096"
  using ceil_div_iff [of 4096 c "- ((- c) div 4096)"] by simp

section \<open>Facts about the buffer\<close>

lemma innerArraySize_pos: "0 < innerArraySize"
  by (simp add: innerArraySize_def)

lemma floor_chunk: "\<lfloor>real_of_int i / real_of_int innerArraySize\<rfloor> = i div innerArraySize"
  by (rule floor_divide_of_int_eq)

lemma ceiling_chunk: "\<lceil>real_of_int i / real_of_int innerArraySize\<rceil> = - ((- i) div innerArraySize)"
  by (rule ceiling_divide_eq_div)

lemma js_rem_nonneg: "0 \<le> a \<Longrightarrow> 0 < b \<Longrightarrow> js_rem a b = a mod b"
  by (cases "a = 0") (simp_all add: js_rem_def)

lemma div_less_int:
  fixes p s l :: int
  assumes "0 < s"
  shows "p div s < l \<longleftrightarrow> p < l * s"
proof -
  have "(p - l * s) div s = p div s - l"
    using assms div_mult_self1 [of s p "- l"] by simp
  moreover have "(p - l * s) div s < 0 \<longleftrightarrow> p - l * s < 0"
    using assms by (rule pos_imp_zdiv_neg_iff)
  ultimately show ?thesis by simp
qed

lemma createAdditionalInnerArrays_loop_dataList:
  "dataList (createAdditionalInnerArrays_loop i n b) = dataList b @ replicate (nat (n - i)) new_chunk"
proof (induction i n b rule: createAdditionalInnerArrays_loop.induct)
  case (1 i n b)
  show ?case
  proof (cases "i < n")
    case True
    then have "nat (n - i) = Suc (nat (n - (i + 1)))" by simp
    moreover have "createAdditionalInnerArrays_loop i n b =
        createAdditionalInnerArrays_loop (i + 1) n (b\<lparr>dataList := dataList b @ [new_chunk]\<rparr>)"
      using True by (subst createAdditionalInnerArrays_loop.simps) simp
    ultimately show ?thesis using 1 [OF True] by simp
  next
    case False
    then show ?thesis by (subst createAdditionalInnerArrays_loop.simps) simp
  qed
qed

lemma createAdditionalInnerArrays_loop_count:
  "currentElementCount (createAdditionalInnerArrays_loop i n b) = currentElementCount b"
proof (induction i n b rule: createAdditionalInnerArrays_loop.induct)
  case (1 i n b)
  then show ?case by (subst createAdditionalInnerArrays_loop.simps) simp
qed

lemma getElement_cell:
  assumes "chunks_ok b"
  shows "getElement b p =
     (if 0 \<le> p \<and> p < capacity b
      then Some (dataList b ! nat (p div innerArraySize) ! nat (p mod innerArraySize))
      else Some (Fin 0))"
proof (cases "0 \<le> p \<and> p < capacity b")
  case True
  then have p: "0 \<le> p" "p < int (length (dataList b)) * innerArraySize"
    by (simp_all add: capacity_def)
  let ?k = "p div innerArraySize"
  have k0: "0 \<le> ?k" using p innerArraySize_pos by (simp add: pos_imp_zdiv_nonneg_iff)
  have k1: "?k < int (length (dataList b))"
    using p innerArraySize_pos by (simp add: div_less_int)
  have "dataList b ! nat ?k \<in> set (dataList b)" using k0 k1 by simp
  then have len: "int (length (dataList b ! nat ?k)) = innerArraySize"
    using assms by (simp add: chunks_ok_def)
  have m: "0 \<le> p mod innerArraySize" "p mod innerArraySize < innerArraySize"
    using innerArraySize_pos by simp_all
  show ?thesis
    using True k0 k1 len m p(1) innerArraySize_pos
    by (simp add: getElement_def floor_chunk js_rem_nonneg js_index_def)
next
  case False
  have "\<not> (0 \<le> p div innerArraySize \<and> p div innerArraySize < int (length (dataList b)))"
    using False innerArraySize_pos
    by (auto simp add: capacity_def pos_imp_zdiv_nonneg_iff div_less_int)
  then show ?thesis using False
    by (auto simp add: getElement_def floor_chunk js_index_def)
qed


lemma getElement_outside:
  "chunks_ok b \<Longrightarrow> \<not> (0 \<le> p \<and> p < capacity b) \<Longrightarrow> getElement b p = Some (Fin 0)"
  by (auto simp add: getElement_cell)

lemma getElement_inside:
  "chunks_ok b \<Longrightarrow> 0 \<le> p \<Longrightarrow> p < capacity b \<Longrightarrow>
   getElement b p = Some (dataList b ! nat (p div innerArraySize) ! nat (p mod innerArraySize))"
  by (simp add: getElement_cell)

lemma flat_index_eq:
  fixes p c s :: int
  shows "(p div s = c div s \<and> p mod s = c mod s) \<longleftrightarrow> p = c"
  by (metis mult_div_mod_eq)

lemma push_step_count: "currentElementCount (push_step fa i b) = currentElementCount b + 1"
  by (simp add: push_step_def Let_def)

lemma push_step_length: "length (dataList (push_step fa i b)) = length (dataList b)"
  by (simp add: push_step_def Let_def split: option.split)

lemma push_step_chunks_ok: "chunks_ok b \<Longrightarrow> chunks_ok (push_step fa i b)"
proof -
  assume ok: "chunks_ok b"
  show ?thesis
  proof (cases "js_index (dataList b) \<lfloor>real_of_int (currentElementCount b) / real_of_int innerArraySize\<rfloor>")
    case None
    then show ?thesis using ok by (simp add: push_step_def Let_def chunks_ok_def)
  next
    case (Some chunk)
    then have "chunk \<in> set (dataList b)"
      by (auto simp add: js_index_def nat_less_iff split: if_splits intro!: nth_mem)
    then have "int (length chunk) = innerArraySize" using ok by (simp add: chunks_ok_def)
    then have "\<And>j v. int (length (ta_store chunk j v)) = innerArraySize"
      by (simp add: ta_store_def)
    then show ?thesis using ok Some
      by (auto simp add: push_step_def Let_def chunks_ok_def dest!: set_update_subset_insert [THEN subsetD])
  qed
qed

lemma push_step_getElement:
  assumes ok: "chunks_ok b"
    and c0: "0 \<le> currentElementCount b"
    and c1: "currentElementCount b < capacity b"
  shows "getElement (push_step fa i b) p =
    (if p = currentElementCount b then Some (to_f32 (js_index fa i)) else getElement b p)"
proof -
  let ?c = "currentElementCount b"
  let ?S = innerArraySize
  let ?dl = "dataList b"
  let ?v = "to_f32 (js_index fa i)"
  have k0: "0 \<le> ?c div ?S" using c0 innerArraySize_pos by (simp add: pos_imp_zdiv_nonneg_iff)
  have k1: "?c div ?S < int (length ?dl)"
    using c1 innerArraySize_pos by (simp add: div_less_int capacity_def)
  have "?dl ! nat (?c div ?S) \<in> set ?dl" using k0 k1 by simp
  then have len: "int (length (?dl ! nat (?c div ?S))) = ?S"
    using ok by (simp add: chunks_ok_def)
  have m: "0 \<le> ?c mod ?S" "?c mod ?S < ?S" using innerArraySize_pos by simp_all
  have dl': "dataList (push_step fa i b) =
      ?dl[nat (?c div ?S) := (?dl ! nat (?c div ?S))[nat (?c mod ?S) := ?v]]"
    using k0 k1 len m c0 innerArraySize_pos
    by (simp add: push_step_def Let_def floor_chunk js_rem_nonneg js_index_def ta_store_def)
  have ok': "chunks_ok (push_step fa i b)" using ok by (rule push_step_chunks_ok)
  have cap: "capacity (push_step fa i b) = capacity b"
    by (simp add: capacity_def push_step_length)
  show ?thesis
  proof (cases "0 \<le> p \<and> p < capacity b")
    case False
    then have "p \<noteq> ?c" using c0 c1 by auto
    moreover have out': "\<not> (0 \<le> p \<and> p < capacity (push_step fa i b))" using False by (simp add: cap)
    ultimately show ?thesis
      by (simp add: getElement_outside [OF ok False] getElement_outside [OF ok' out'])
  next
    case True
    then have pk0: "0 \<le> p div ?S" using innerArraySize_pos by (simp add: pos_imp_zdiv_nonneg_iff)
    have pk1: "p div ?S < int (length ?dl)"
      using True innerArraySize_pos by (simp add: div_less_int capacity_def)
    have pm: "0 \<le> p mod ?S" "p mod ?S < ?S" using innerArraySize_pos by simp_all
    have keq: "nat (p div ?S) = nat (?c div ?S) \<longleftrightarrow> p div ?S = ?c div ?S"
      using pk0 k0 by (rule eq_nat_nat_iff)
    have meq: "nat (p mod ?S) = nat (?c mod ?S) \<longleftrightarrow> p mod ?S = ?c mod ?S"
      using pm(1) m(1) by (rule eq_nat_nat_iff)
    show ?thesis
    proof (cases "p = ?c")
      case True
      then show ?thesis using c0 c1 k0 k1 len m
        by (simp add: getElement_cell [OF ok'] cap dl')
    next
      case False
      then have ne: "\<not> (p div ?S = ?c div ?S \<and> p mod ?S = ?c mod ?S)"
        by (simp add: flat_index_eq)
      show ?thesis
      proof (cases "p div ?S = ?c div ?S")
        case True
        then have "p mod ?S \<noteq> ?c mod ?S" using ne by simp
        then have "nat (p mod ?S) \<noteq> nat (?c mod ?S)" using meq by simp
        then show ?thesis using \<open>0 \<le> p \<and> p < capacity b\<close> False True k0 k1
          by (simp add: getElement_cell [OF ok] getElement_cell [OF ok'] cap dl')
      next
        case False
        then have "nat (p div ?S) \<noteq> nat (?c div ?S)" using keq by simp
        then show ?thesis using \<open>0 \<le> p \<and> p < capacity b\<close> \<open>p \<noteq> ?c\<close>
          by (simp add: getElement_cell [OF ok] getElement_cell [OF ok'] cap dl')
      qed
    qed
  qed
qed

lemma push_loop_spec:
  assumes "chunks_ok b" and "0 \<le> currentElementCount b"
    and "i < n \<longrightarrow> currentElementCount b + (n - i) \<le> capacity b"
  shows "chunks_ok (push_loop fa n i b) \<and>
         length (dataList (push_loop fa n i b)) = length (dataList b) \<and>
         currentElementCount (push_loop fa n i b) = currentElementCount b + max 0 (n - i) \<and>
         (\<forall>p. getElement (push_loop fa n i b) p =
            (if currentElementCount b \<le> p \<and> p < currentElementCount b + (n - i)
             then Some (to_f32 (js_index fa (i + (p - currentElementCount b))))
             else getElement b p))"
  using assms
proof (induction fa n i b rule: push_loop.induct)
  case (1 fa n i b)
  show ?case
  proof (cases "i < n")
    case False
    then have "push_loop fa n i b = b" by (subst push_loop.simps) simp
    then show ?thesis using False "1.prems"(1) by auto
  next
    case True
    let ?b1 = "push_step fa i b"
    have unf: "push_loop fa n i b = push_loop fa n (i + 1) ?b1"
      using True by (subst push_loop.simps) simp
    have c1: "currentElementCount b < capacity b" using True "1.prems" by simp
    have ok1: "chunks_ok ?b1" using "1.prems"(1) by (rule push_step_chunks_ok)
    have cnt1: "currentElementCount ?b1 = currentElementCount b + 1" by (rule push_step_count)
    have cap1: "capacity ?b1 = capacity b" by (simp add: capacity_def push_step_length)
    have ih: "chunks_ok (push_loop fa n (i + 1) ?b1) \<and>
         length (dataList (push_loop fa n (i + 1) ?b1)) = length (dataList ?b1) \<and>
         currentElementCount (push_loop fa n (i + 1) ?b1) = currentElementCount ?b1 + max 0 (n - (i + 1)) \<and>
         (\<forall>p. getElement (push_loop fa n (i + 1) ?b1) p =
            (if currentElementCount ?b1 \<le> p \<and> p < currentElementCount ?b1 + (n - (i + 1))
             then Some (to_f32 (js_index fa (i + 1 + (p - currentElementCount ?b1))))
             else getElement ?b1 p))"
      using True "1.prems" by (intro "1.IH" [OF True] ok1) (simp_all add: cnt1 cap1)
    have step: "\<And>p. getElement ?b1 p =
        (if p = currentElementCount b then Some (to_f32 (js_index fa i)) else getElement b p)"
      using "1.prems"(1,2) c1 by (rule push_step_getElement)
    have "\<forall>p. getElement (push_loop fa n (i + 1) ?b1) p =
            (if currentElementCount b \<le> p \<and> p < currentElementCount b + (n - i)
             then Some (to_f32 (js_index fa (i + (p - currentElementCount b))))
             else getElement b p)"
    proof
      fix p
      show "getElement (push_loop fa n (i + 1) ?b1) p =
            (if currentElementCount b \<le> p \<and> p < currentElementCount b + (n - i)
             then Some (to_f32 (js_index fa (i + (p - currentElementCount b))))
             else getElement b p)"
        using ih step [of p] True by (auto simp add: cnt1 algebra_simps)
    qed
    then show ?thesis using ih True by (simp add: unf cnt1 push_step_length)
  qed
qed


lemma new_chunk_length: "int (length new_chunk) = innerArraySize"
  by (simp add: new_chunk_def innerArraySize_def)

lemma createAdditionalInnerArrays_dataList:
  "dataList (createAdditionalInnerArrays k b) = dataList b @ replicate (nat k) new_chunk"
  by (simp add: createAdditionalInnerArrays_def createAdditionalInnerArrays_loop_dataList)

lemma createAdditionalInnerArrays_count:
  "currentElementCount (createAdditionalInnerArrays k b) = currentElementCount b"
  by (simp add: createAdditionalInnerArrays_def createAdditionalInnerArrays_loop_count)

lemma createAdditionalInnerArrays_chunks_ok:
  "chunks_ok b \<Longrightarrow> chunks_ok (createAdditionalInnerArrays k b)"
  by (auto simp add: chunks_ok_def createAdditionalInnerArrays_dataList new_chunk_length)

lemma createAdditionalInnerArrays_getElement:
  assumes ok: "chunks_ok b"
  shows "getElement (createAdditionalInnerArrays k b) p = getElement b p"
proof -
  let ?b0 = "createAdditionalInnerArrays k b"
  let ?S = innerArraySize
  have ok0: "chunks_ok ?b0" using ok by (rule createAdditionalInnerArrays_chunks_ok)
  have cap: "capacity ?b0 = capacity b + int (nat k) * ?S"
    by (simp add: capacity_def createAdditionalInnerArrays_dataList algebra_simps)
  show ?thesis
  proof (cases "0 \<le> p \<and> p < capacity ?b0")
    case False
    moreover have "0 \<le> int (nat k) * ?S" using innerArraySize_pos by simp
    ultimately have "\<not> (0 \<le> p \<and> p < capacity b)" using cap by auto
    then show ?thesis
      by (simp add: getElement_outside [OF ok0 False] getElement_outside [OF ok])
  next
    case True
    then have p0: "0 \<le> p" and p1: "p < capacity ?b0" by simp_all
    have k0: "0 \<le> p div ?S" using p0 innerArraySize_pos by (simp add: pos_imp_zdiv_nonneg_iff)
    have m: "0 \<le> p mod ?S" "p mod ?S < ?S" using innerArraySize_pos by simp_all
    show ?thesis
    proof (cases "p < capacity b")
      case True
      then have "p div ?S < int (length (dataList b))"
        using innerArraySize_pos by (simp add: div_less_int capacity_def)
      then have "nat (p div ?S) < length (dataList b)" using k0 by simp
      then show ?thesis using p0 p1 True
        by (simp add: getElement_inside [OF ok0] getElement_inside [OF ok]
            createAdditionalInnerArrays_dataList nth_append)
    next
      case False
      then have ge: "\<not> p div ?S < int (length (dataList b))"
        using innerArraySize_pos by (simp add: div_less_int capacity_def)
      have "p div ?S < int (length (dataList ?b0))"
        using p1 innerArraySize_pos by (simp add: div_less_int capacity_def)
      then have "p div ?S < int (length (dataList b)) + int (nat k)"
        by (simp only: createAdditionalInnerArrays_dataList length_append length_replicate of_nat_add)
      then have lt: "nat (p div ?S) - length (dataList b) < nat k"
        using k0 ge by linarith
      have nl: "\<not> nat (p div ?S) < length (dataList b)" using ge k0 by simp
      have "dataList ?b0 ! nat (p div ?S) = new_chunk"
        using lt nl by (simp add: createAdditionalInnerArrays_dataList nth_append)
      moreover have "new_chunk ! nat (p mod ?S) = Fin 0"
        using m by (simp add: new_chunk_def)
      moreover have "\<not> (0 \<le> p \<and> p < capacity b)" using False by simp
      ultimately show ?thesis using p0 p1
        by (simp add: getElement_inside [OF ok0] getElement_outside [OF ok])
    qed
  qed
qed

lemma wf_available:
  assumes "0 \<le> currentElementCount b"
  shows "availableElementsInCurrentArray b =
    (if currentElementCount b mod 4096 = 0 then 0 else 4096 - currentElementCount b mod 4096)"
  using assms
  by (simp add: availableElementsInCurrentArray_def Let_def js_rem_nonneg innerArraySize_def)

lemma push_spec:
  assumes wf: "wf_buffer b"
  shows "wf_buffer (push fa n b) \<and>
         currentElementCount (push fa n b) = currentElementCount b + max 0 n \<and>
         (\<forall>p. getElement (push fa n b) p =
            (if currentElementCount b \<le> p \<and> p < currentElementCount b + n
             then Some (to_f32 (js_index fa (p - currentElementCount b)))
             else getElement b p))"
proof -
  let ?c = "currentElementCount b"
  let ?k = "arraysToAddCount n b"
  let ?b0 = "createAdditionalInnerArrays ?k b"
  have ok: "chunks_ok b" and c0: "0 \<le> ?c"
    and len: "int (length (dataList b)) = - ((- ?c) div 4096)"
    and zeros: "\<And>p. ?c \<le> p \<Longrightarrow> getElement b p = Some (Fin 0)"
    using wf by (simp_all add: wf_buffer_def innerArraySize_def)
  have k: "?k = - ((- (n - (if ?c mod 4096 = 0 then 0 else 4096 - ?c mod 4096))) div 4096)"
    unfolding arraysToAddCount_def ceiling_chunk wf_available [OF c0]
    by (simp add: innerArraySize_def)
  have ok0: "chunks_ok ?b0" using ok by (rule createAdditionalInnerArrays_chunks_ok)
  have cnt0: "currentElementCount ?b0 = ?c" by (rule createAdditionalInnerArrays_count)
  have len0: "int (length (dataList ?b0)) = - ((- ?c) div 4096) + int (nat ?k)"
    by (simp add: createAdditionalInnerArrays_dataList len)
  have len0': "int (length (dataList ?b0)) = - ((- (?c + n)) div 4096)" if "0 \<le> n"
  proof -
    note len0
    also have "- ((- ?c) div 4096) + int (nat ?k) = - ((- ?c) div 4096)
       + int (nat (- ((- (n - (if ?c mod 4096 = 0 then 0 else 4096 - ?c mod 4096))) div 4096)))"
      by (simp only: k)
    also have "\<dots> = - ((- (?c + n)) div 4096)"
      using c0 that by (rule chunk_growth_arith)
    finally show ?thesis .
  qed
  have len0'': "int (length (dataList ?b0)) = - ((- ?c) div 4096)" if "n < 0"
  proof -
    have "nat ?k = 0" using chunk_growth_arith_neg [OF c0 that] by (simp only: k)
    then show ?thesis by (simp only: len0)
  qed
  have cap0: "0 < n \<longrightarrow> currentElementCount ?b0 + (n - 0) \<le> capacity ?b0"
    using len0' ceil_covers [of "?c + n"] by (simp add: capacity_def cnt0 innerArraySize_def)
  have loop: "chunks_ok (push_loop fa n 0 ?b0) \<and>
         length (dataList (push_loop fa n 0 ?b0)) = length (dataList ?b0) \<and>
         currentElementCount (push_loop fa n 0 ?b0) = currentElementCount ?b0 + max 0 (n - 0) \<and>
         (\<forall>p. getElement (push_loop fa n 0 ?b0) p =
            (if currentElementCount ?b0 \<le> p \<and> p < currentElementCount ?b0 + (n - 0)
             then Some (to_f32 (js_index fa (0 + (p - currentElementCount ?b0))))
             else getElement ?b0 p))"
    using ok0 _ cap0 by (rule push_loop_spec) (simp add: cnt0 c0)
  have get: "\<forall>p. getElement (push fa n b) p =
            (if ?c \<le> p \<and> p < ?c + n
             then Some (to_f32 (js_index fa (p - ?c)))
             else getElement b p)"
    using loop by (simp add: push_def cnt0 createAdditionalInnerArrays_getElement [OF ok])
  have cnt: "currentElementCount (push fa n b) = ?c + max 0 n"
    using loop by (simp add: push_def cnt0)
  have lenp: "int (length (dataList (push fa n b))) = - ((- (?c + max 0 n)) div 4096)"
  proof (cases "0 \<le> n")
    case True
    then show ?thesis using loop len0' by (simp add: push_def max_def)
  next
    case False
    then show ?thesis using loop len0'' by (simp add: push_def max_def)
  qed
  have "wf_buffer (push fa n b)"
    unfolding wf_buffer_def
  proof (intro conjI allI impI)
    show "chunks_ok (push fa n b)" using loop by (simp add: push_def)
    show "0 \<le> currentElementCount (push fa n b)" using cnt c0 by simp
    show "int (length (dataList (push fa n b))) =
        - ((- currentElementCount (push fa n b)) div innerArraySize)"
      using lenp by (simp add: cnt innerArraySize_def)
  next
    fix p assume "currentElementCount (push fa n b) \<le> p"
    then have "?c + max 0 n \<le> p" by (simp add: cnt)
    then have "\<not> (?c \<le> p \<and> p < ?c + n)" and "?c \<le> p" by auto
    then show "getElement (push fa n b) p = Some (Fin 0)"
      using get zeros by simp
  qed
  then show ?thesis using cnt get by simp
qed

section \<open>Runs of push calls\<close>

lemma wf_new: "wf_buffer new_FloatArrayWrapper"
  by (auto simp add: wf_buffer_def new_FloatArrayWrapper_def chunks_ok_def getElement_def js_index_def)

text \<open>\<open>clear\<close> brings any buffer back to the state the constructor makes.\<close>

lemma clear_new: "clear b = new_FloatArrayWrapper"
  by (simp add: clear_def new_FloatArrayWrapper_def)

lemma pushes_Nil: "pushes [] b = b"
  by (simp add: pushes_def)

lemma pushes_Cons: "pushes ((fa, n) # calls) b = pushes calls (push fa n b)"
  by (simp add: pushes_def)

lemma pushes_wf: "wf_buffer b \<Longrightarrow> wf_buffer (pushes calls b)"
proof (induction calls arbitrary: b)
  case Nil
  then show ?case by (simp add: pushes_Nil)
next
  case (Cons call calls)
  obtain fa n where call: "call = (fa, n)" by (cases call)
  have "wf_buffer (push fa n b)" using push_spec [OF Cons.prems] by simp
  then show ?case unfolding call pushes_Cons by (rule Cons.IH)
qed

lemma total_count_nonneg: "counts_ok calls \<Longrightarrow> 0 \<le> total_count calls"
  by (induction calls) (auto simp add: counts_ok_def total_count_def)

lemma length_pushed_samples: "counts_ok calls \<Longrightarrow> int (length (pushed_samples calls)) = total_count calls"
  by (induction calls) (auto simp add: counts_ok_def total_count_def pushed_samples_def)

lemma pushes_spec:
  assumes "wf_buffer b" and "counts_ok calls"
  shows "currentElementCount (pushes calls b) = currentElementCount b + total_count calls \<and>
         (\<forall>p. getElement (pushes calls b) p =
            (if currentElementCount b \<le> p \<and> p < currentElementCount b + total_count calls
             then Some (pushed_samples calls ! nat (p - currentElementCount b))
             else getElement b p))"
  using assms
proof (induction calls arbitrary: b)
  case Nil
  then show ?case by (auto simp add: pushes_Nil total_count_def)
next
  case (Cons call calls)
  obtain fa n where call: "call = (fa, n)" by (cases call)
  let ?c = "currentElementCount b"
  let ?b1 = "push fa n b"
  have n: "0 \<le> n" "n \<le> int (length fa)" and rest: "counts_ok calls"
    using Cons.prems(2) by (simp_all add: counts_ok_def call)
  have tot: "total_count ((fa, n) # calls) = n + total_count calls"
    by (simp add: total_count_def)
  have tn: "0 \<le> total_count calls" using rest by (rule total_count_nonneg)
  have ps: "pushed_samples ((fa, n) # calls) = take (nat n) fa @ pushed_samples calls"
    by (simp add: pushed_samples_def)
  have ltake: "min (length fa) (nat n) = nat n" using n by simp
  have wf1: "wf_buffer ?b1"
    and cnt1: "currentElementCount ?b1 = ?c + n"
    and get1: "\<And>p. getElement ?b1 p =
            (if ?c \<le> p \<and> p < ?c + n then Some (to_f32 (js_index fa (p - ?c)))
             else getElement b p)"
    using push_spec [OF Cons.prems(1), of fa n] n(1) by simp_all
  have ih: "currentElementCount (pushes calls ?b1) = currentElementCount ?b1 + total_count calls"
    and ihg: "\<And>p. getElement (pushes calls ?b1) p =
            (if currentElementCount ?b1 \<le> p \<and> p < currentElementCount ?b1 + total_count calls
             then Some (pushed_samples calls ! nat (p - currentElementCount ?b1))
             else getElement ?b1 p)"
    using Cons.IH [OF wf1 rest] by simp_all
  have "getElement (pushes ((fa, n) # calls) b) p =
            (if ?c \<le> p \<and> p < ?c + total_count ((fa, n) # calls)
             then Some (pushed_samples ((fa, n) # calls) ! nat (p - ?c))
             else getElement b p)" for p
  proof (cases "?c + n \<le> p \<and> p < ?c + n + total_count calls")
    case True
    then have "nat (p - ?c) - nat n = nat (p - (?c + n))" and "\<not> nat (p - ?c) < nat n"
      using n(1) by simp_all
    then show ?thesis using True n(1)
      by (simp add: pushes_Cons ihg cnt1 tot ps nth_append ltake)
  next
    case False
    show ?thesis
    proof (cases "?c \<le> p \<and> p < ?c + n")
      case True
      then have lt: "nat (p - ?c) < nat n" and r: "0 \<le> p - ?c" "p - ?c < int (length fa)"
        using n by simp_all
      have "to_f32 (js_index fa (p - ?c)) = fa ! nat (p - ?c)"
        using r by (simp add: js_index_def to_f32_def)
      then show ?thesis using True False tn lt
        by (simp add: pushes_Cons ihg cnt1 tot ps nth_append ltake get1)
    next
      case False
      then show ?thesis using \<open>\<not> (?c + n \<le> p \<and> p < ?c + n + total_count calls)\<close> tn n(1)
        by (auto simp add: pushes_Cons ihg cnt1 tot get1)
    qed
  qed
  then show ?case unfolding call by (simp add: pushes_Cons ih cnt1 tot)
qed

lemma pushes_count:
  "wf_buffer b \<Longrightarrow> counts_nonneg calls \<Longrightarrow>
   currentElementCount (pushes calls b) = currentElementCount b + total_count calls"
proof (induction calls arbitrary: b)
  case Nil
  then show ?case by (simp add: pushes_Nil total_count_def)
next
  case (Cons call calls)
  obtain fa n where call: "call = (fa, n)" by (cases call)
  have n: "0 \<le> n" and rest: "counts_nonneg calls"
    using Cons.prems(2) by (simp_all add: counts_nonneg_def call)
  have wf1: "wf_buffer (push fa n b)"
    and cnt1: "currentElementCount (push fa n b) = currentElementCount b + n"
    using push_spec [OF Cons.prems(1), of fa n] n by simp_all
  show ?case
    unfolding call pushes_Cons using Cons.IH [OF wf1 rest]
    by (simp add: cnt1 total_count_def)
qed

lemma wf_zero_tail:
  "wf_buffer b \<Longrightarrow> currentElementCount b \<le> p \<Longrightarrow> getElement b p = Some (Fin 0)"
  by (simp add: wf_buffer_def)

lemma push_loop_length:
  "length (dataList (push_loop fa n i b)) = length (dataList b)"
proof (induction fa n i b rule: push_loop.induct)
  case (1 fa n i b)
  then show ?case
    by (subst push_loop.simps) (simp add: push_step_length)
qed

text \<open>
  C1. Start from an empty buffer and make any run of \<open>push\<close> calls, each with a count
  between 0 and the length of its array, and nothing else in between. Then \<open>getSize\<close> is
  the sum \<open>N\<close> of the counts, and for every \<open>i\<close> with \<open>0 \<le> i < N\<close>, \<open>getElement i\<close> is the
  sample at position \<open>i\<close> of the pushed samples laid end to end. \<open>N\<close> is any number: 0, a
  multiple of 4096, or one more.
\<close>

theorem push_sequence_readback:
  assumes "counts_ok calls"
  shows "getSize (pushes calls new_FloatArrayWrapper) = total_count calls \<and>
         (\<forall>i. 0 \<le> i \<and> i < total_count calls \<longrightarrow>
            getElement (pushes calls new_FloatArrayWrapper) i = Some (pushed_samples calls ! nat i))"
  using pushes_spec [OF wf_new assms]
  by (simp add: getSize_def new_FloatArrayWrapper_def)

theorem push_sequence_readback_witness:
  "counts_ok [(replicate 4096 (Fin 1), 4096), ([Fin 7, Fin 8], 1)] \<and>
   getSize (pushes [(replicate 4096 (Fin 1), 4096), ([Fin 7, Fin 8], 1)] new_FloatArrayWrapper) = 4097 \<and>
   getElement (pushes [(replicate 4096 (Fin 1), 4096), ([Fin 7, Fin 8], 1)] new_FloatArrayWrapper) 5
     = Some (Fin 1) \<and>
   getElement (pushes [(replicate 4096 (Fin 1), 4096), ([Fin 7, Fin 8], 1)] new_FloatArrayWrapper) 4096
     = Some (Fin 7)"
proof -
  let ?calls = "[(replicate 4096 (Fin 1), 4096), ([Fin 7, Fin 8], 1::int)]"
  have ok: "counts_ok ?calls" by (simp add: counts_ok_def)
  have tot: "total_count ?calls = 4097" by (simp add: total_count_def)
  have ps: "pushed_samples ?calls = replicate 4096 (Fin 1) @ [Fin 7]"
    by (simp add: pushed_samples_def)
  note r = push_sequence_readback [OF ok]
  have "getElement (pushes ?calls new_FloatArrayWrapper) 5 = Some (pushed_samples ?calls ! nat 5)"
    using r by (simp add: tot)
  moreover have "getElement (pushes ?calls new_FloatArrayWrapper) 4096
      = Some (pushed_samples ?calls ! nat 4096)"
    using r by (simp add: tot)
  ultimately show ?thesis using ok r by (simp add: tot ps nth_append)
qed

text \<open>
  C3. After any run of \<open>push\<close> calls with counts that are not negative, \<open>N\<close> samples in
  all, \<open>getElement i\<close> is the number 0 for every \<open>i \<ge> N\<close>, however far beyond the chunks
  that exist. \<open>getElement\<close> has no failing branch: its one indexing of a chunk is guarded
  by the test that the chunk exists.
\<close>

theorem getElement_beyond_size:
  assumes "counts_nonneg calls" and "total_count calls \<le> i"
  shows "getElement (pushes calls new_FloatArrayWrapper) i = Some (Fin 0)"
proof -
  have "currentElementCount (pushes calls new_FloatArrayWrapper) = total_count calls"
    using pushes_count [OF wf_new assms(1)] by (simp add: new_FloatArrayWrapper_def)
  then show ?thesis
    using wf_zero_tail [OF pushes_wf [OF wf_new], of calls i] assms(2) by simp
qed

theorem getElement_beyond_size_witness:
  "counts_nonneg [([Fin 1, Fin 2], 2), ([], 3)] \<and> total_count [([Fin 1, Fin 2], 2), ([], 3)] \<le> 5 \<and>
   getElement (pushes [([Fin 1, Fin 2], 2), ([], 3)] new_FloatArrayWrapper) 5 = Some (Fin 0) \<and>
   getElement (pushes [([Fin 1, Fin 2], 2), ([], 3)] new_FloatArrayWrapper) 1000000 = Some (Fin 0)"
proof -
  let ?calls = "[([Fin 1, Fin 2], 2), ([], 3::int)]"
  have ok: "counts_nonneg ?calls" by (simp add: counts_nonneg_def)
  have tot: "total_count ?calls = 5" by (simp add: total_count_def)
  show ?thesis
    using ok getElement_beyond_size [OF ok, of 5] getElement_beyond_size [OF ok, of 1000000]
    by (simp add: tot)
qed

text \<open>
  C4. A \<open>push\<close> of \<open>arrayRealSize\<close> samples, on any buffer, makes the chunk list longer by
  the ceiling of (\<open>arrayRealSize\<close> minus the free tail of the last chunk) over 4096, and by
  nothing when that is negative. The free tail is \<open>4096 - count mod 4096\<close>, and 0 when the
  count is a multiple of 4096; in that case a push of at least one sample adds
  \<open>\<lceil>arrayRealSize / 4096\<rceil>\<close> chunks, so at least one.
\<close>

theorem push_chunk_growth:
  "int (length (dataList (push floatArray arrayRealSize b))) =
     int (length (dataList b))
       + max 0 \<lceil>real_of_int (arrayRealSize - availableElementsInCurrentArray b) / 4096\<rceil>
   \<and> (0 \<le> currentElementCount b \<longrightarrow>
        availableElementsInCurrentArray b =
          (if currentElementCount b mod 4096 = 0 then 0 else 4096 - currentElementCount b mod 4096))
   \<and> (0 \<le> currentElementCount b \<and> currentElementCount b mod 4096 = 0 \<and> 0 < arrayRealSize \<longrightarrow>
        int (length (dataList (push floatArray arrayRealSize b))) =
          int (length (dataList b)) + \<lceil>real_of_int arrayRealSize / 4096\<rceil>
        \<and> length (dataList b) < length (dataList (push floatArray arrayRealSize b)))"
proof (intro conjI impI)
  show g: "int (length (dataList (push floatArray arrayRealSize b))) =
     int (length (dataList b))
       + max 0 \<lceil>real_of_int (arrayRealSize - availableElementsInCurrentArray b) / 4096\<rceil>"
    by (simp add: push_def push_loop_length createAdditionalInnerArrays_dataList
        arraysToAddCount_def innerArraySize_def max_def)
  show "availableElementsInCurrentArray b =
     (if currentElementCount b mod 4096 = 0 then 0 else 4096 - currentElementCount b mod 4096)"
    if "0 \<le> currentElementCount b"
    using that by (rule wf_available)
  assume a: "0 \<le> currentElementCount b \<and> currentElementCount b mod 4096 = 0 \<and> 0 < arrayRealSize"
  then have av: "availableElementsInCurrentArray b = 0" by (simp add: wf_available)
  have pos: "0 < \<lceil>real_of_int arrayRealSize / 4096\<rceil>" using a by simp
  show e: "int (length (dataList (push floatArray arrayRealSize b))) =
          int (length (dataList b)) + \<lceil>real_of_int arrayRealSize / 4096\<rceil>"
    using g pos by (simp add: av max_def)
  show "length (dataList b) < length (dataList (push floatArray arrayRealSize b))"
    using e pos by linarith
qed

theorem push_chunk_growth_witness:
  "int (length (dataList (push [Fin 1] 1 \<lparr>dataList = [new_chunk], currentElementCount = 4096\<rparr>))) = 2
   \<and> int (length (dataList (push [Fin 1] 1 \<lparr>dataList = [new_chunk], currentElementCount = 4095\<rparr>))) = 1
   \<and> int (length (dataList (push [] (- 3) \<lparr>dataList = [new_chunk], currentElementCount = 4095\<rparr>))) = 1"
proof -
  have c1: "\<lceil>(1::real) / 4096\<rceil> = 1" by (rule ceiling_unique) simp_all
  have c2: "\<lceil>(- 4::real) / 4096\<rceil> = 0" by (rule ceiling_unique) simp_all
  show ?thesis
    using push_chunk_growth [of "[Fin 1]" 1 "\<lparr>dataList = [new_chunk], currentElementCount = 4096\<rparr>"]
      push_chunk_growth [of "[Fin 1]" 1 "\<lparr>dataList = [new_chunk], currentElementCount = 4095\<rparr>"]
      push_chunk_growth [of "[]" "- 3" "\<lparr>dataList = [new_chunk], currentElementCount = 4095\<rparr>"]
    by (simp add: c1 c2)
qed

text \<open>
  C7. \<open>shift\<close> on a buffer with no chunk returns \<open>undefined\<close> and changes nothing; on a
  buffer with chunks it returns the first one (chunks are appended at the end, so the
  first is the oldest) and leaves the others. In both cases \<open>getSize\<close> is what it was.
\<close>

theorem shift_pops_oldest:
  "(dataList b = [] \<longrightarrow> shift b = (None, b))
   \<and> (\<forall>chunk rest. dataList b = chunk # rest \<longrightarrow> shift b = (Some chunk, b\<lparr>dataList := rest\<rparr>))
   \<and> getSize (snd (shift b)) = getSize b"
  by (cases "dataList b") (simp_all add: shift_def getSize_def)

theorem shift_pops_oldest_witness:
  "shift \<lparr>dataList = [], currentElementCount = 4096\<rparr>
     = (None, \<lparr>dataList = [], currentElementCount = 4096\<rparr>)
   \<and> shift \<lparr>dataList = [[Fin 1], [Fin 2]], currentElementCount = 2\<rparr>
     = (Some [Fin 1], \<lparr>dataList = [[Fin 2]], currentElementCount = 2\<rparr>)
   \<and> getSize (snd (shift \<lparr>dataList = [[Fin 1], [Fin 2]], currentElementCount = 2\<rparr>)) = 2"
  using shift_pops_oldest [of "\<lparr>dataList = [], currentElementCount = 4096\<rparr>"]
    shift_pops_oldest [of "\<lparr>dataList = [[Fin 1], [Fin 2]], currentElementCount = 2\<rparr>"]
  by (simp add: getSize_def)

text \<open>
  C10. For every buffer and every negative index, \<open>getElement\<close> returns the number 0: the
  chunk index is negative and no chunk is there. The engine multiplies that by the
  volume, so the sample it writes for a negative read index is 0.
\<close>

theorem getElement_negative_index:
  assumes "i < 0"
  shows "getElement b i = Some (Fin 0) \<and> times_volume (getElement b i) vol = Fin 0"
proof -
  have "i div innerArraySize < 0"
    using assms innerArraySize_pos by (simp add: pos_imp_zdiv_neg_iff)
  then have "getElement b i = Some (Fin 0)"
    by (simp add: getElement_def floor_chunk js_index_def)
  then show ?thesis by (simp add: times_volume_def)
qed

theorem getElement_negative_index_witness:
  "(- 1 :: int) < 0 \<and>
   getElement \<lparr>dataList = [[Fin 5]], currentElementCount = 1\<rparr> (- 1) = Some (Fin 0) \<and>
   times_volume (getElement \<lparr>dataList = [[Fin 5]], currentElementCount = 1\<rparr> (- 1)) 2 = Fin 0"
  using getElement_negative_index [of "- 1" "\<lparr>dataList = [[Fin 5]], currentElementCount = 1\<rparr>" 2]
  by (simp add: times_volume_def)

section \<open>Facts about the playback engine\<close>





text \<open>
  C8. When the result frame is missing, or no track is on deck, or no buffer is bound,
  \<open>play\<close> returns at its guard: the state it leaves is the state it found, phase, rate,
  volume, result frame and the frames given to the sink included.
\<close>

theorem play_skips:
  assumes "resultFrame s = None \<or> \<not> trackOnDeck s \<or> audioData s = None"
  shows "play n s = s"
  using assms by (auto simp add: play_def split: option.splits)

text \<open>The example deck is what one \<open>push\<close> of three samples leaves behind.\<close>

lemma deck3_pushed: "pushes [([Fin 10, Fin 20, Fin 30], 3)] new_FloatArrayWrapper = deck3"
  by code_simp



theorem play_skips_witness:
  "play 2 (engine0\<lparr>trackOnDeck := False\<rparr>) = engine0\<lparr>trackOnDeck := False\<rparr>
   \<and> play 2 (engine0\<lparr>audioData := None\<rparr>) = engine0\<lparr>audioData := None\<rparr>
   \<and> play 2 (engine0\<lparr>resultFrame := None\<rparr>) = engine0\<lparr>resultFrame := None\<rparr>"
  using play_skips [of "engine0\<lparr>trackOnDeck := False\<rparr>" 2]
    play_skips [of "engine0\<lparr>audioData := None\<rparr>" 2]
    play_skips [of "engine0\<lparr>resultFrame := None\<rparr>" 2]
  by simp

section \<open>Facts about the rate controller\<close>

lemma updateRate_fst:
  "fst (updateRate calc (c, a)) =
     (let m = motionMagnitude calc c;
          t = (if m < motionThreshold c then baseRate c else calculateTargetRate c m)
      in c\<lparr>targetRate := t,
            currentRate := max (minRate c) (min (maxRate c) (applySmoothingToRate c (currentRate c) t))\<rparr>)"
  by (simp add: updateRate_def Let_def applySmoothingToRate_def)




text \<open>
  C6. One tick of \<open>updateRate\<close> sets \<open>targetRate\<close> to \<open>baseRate * (1 + m * sensitivity)\<close> when
  the motion magnitude \<open>m\<close> is at least \<open>motionThreshold\<close>, the threshold itself included,
  and to \<open>baseRate\<close> when \<open>m\<close> is strictly below it.
\<close>

theorem updateRate_targetRate:
  "(motionThreshold c \<le> motionMagnitude calc c \<longrightarrow>
      targetRate (fst (updateRate calc (c, a)))
        = baseRate c * (1 + motionMagnitude calc c * sensitivity c))
   \<and> (motionMagnitude calc c < motionThreshold c \<longrightarrow>
      targetRate (fst (updateRate calc (c, a))) = baseRate c)"
  by (simp add: updateRate_fst Let_def calculateTargetRate_def)

theorem updateRate_targetRate_witness:
  "motionThreshold controller0 \<le> motionMagnitude (motion (1 / 20)) controller0 \<and>
   targetRate (fst (updateRate (motion (1 / 20)) (controller0, engine0))) = 11 / 10 \<and>
   motionMagnitude (motion (1 / 25)) controller0 < motionThreshold controller0 \<and>
   targetRate (fst (updateRate (motion (1 / 25)) (controller0, engine0))) = 1"
  using updateRate_targetRate [of controller0 "motion (1 / 20)" engine0]
    updateRate_targetRate [of controller0 "motion (1 / 25)" engine0]
  by (simp add: motionMagnitude_def motion_def controller0_def)





end
